theory Spec2Isabelle
  imports Main
begin

section \<open>Strings of the host language\<close>

text \<open>
  A string of the program is a sequence of code units, modelled as a \<open>char list\<close>.
  The program compares code units only with ASCII constants and never does arithmetic
  on them, so the width of a unit plays no role. The helpers below are the string
  primitives of the host language that \<open>src/index.ts\<close> calls, restricted to the
  argument shapes that occur there (indices are never negative).
\<close>

definition backslash :: char where
  "backslash = CHR 0x5C"

definition dquote :: string where
  "dquote = [CHR 0x22]"

text \<open>\<open>s[i]\<close>: the one-unit string at index \<open>i\<close>, \<open>None\<close> for \<open>undefined\<close>.\<close>

definition js_at :: "string \<Rightarrow> nat \<Rightarrow> char option" where
  "js_at s i = (if i < length s then Some (s ! i) else None)"

text \<open>\<open>s.slice(a, b)\<close> with \<open>0 \<le> a\<close> and \<open>0 \<le> b\<close>: both ends are clamped to the length.\<close>

definition js_slice :: "string \<Rightarrow> nat \<Rightarrow> nat \<Rightarrow> string" where
  "js_slice s a b = take (b - a) (drop a s)"

text \<open>\<open>s.slice(a)\<close>.\<close>

definition js_slice_from :: "string \<Rightarrow> nat \<Rightarrow> string" where
  "js_slice_from s a = drop a s"

fun first_index :: "char \<Rightarrow> string \<Rightarrow> nat option" where
  "first_index c [] = None"
| "first_index c (x # xs) = (if x = c then Some 0 else map_option Suc (first_index c xs))"

text \<open>
  \<open>s.indexOf(c, from)\<close> for a one-unit search string: the least index \<open>\<ge> from\<close>
  holding \<open>c\<close>; \<open>None\<close> stands for the result \<open>-1\<close>.
\<close>

definition js_indexOf :: "string \<Rightarrow> char \<Rightarrow> nat \<Rightarrow> nat option" where
  "js_indexOf s c from = map_option (\<lambda>k. from + k) (first_index c (drop from s))"

text \<open>\<open>s.includes(c)\<close> for a one-unit search string.\<close>

definition js_includes :: "string \<Rightarrow> char \<Rightarrow> bool" where
  "js_includes s c = (c \<in> set s)"

text \<open>\<open>s.split(c)\<close> for a one-unit separator: never the empty array.\<close>

fun js_split :: "char \<Rightarrow> string \<Rightarrow> string list" where
  "js_split sep [] = [[]]"
| "js_split sep (c # cs) =
     (if c = sep then [] # js_split sep cs
      else (case js_split sep cs of
              [] \<Rightarrow> [[c]]
            | x # xs \<Rightarrow> (c # x) # xs))"

text \<open>
  Array destructuring \<open>[a, b] = xs\<close> reads \<open>xs[0]\<close> and \<open>xs[1]\<close>; a missing element is
  \<open>undefined\<close>, which a template literal prints as the word \<open>undefined\<close>.
\<close>

definition js_elem :: "'a list \<Rightarrow> nat \<Rightarrow> 'a option" where
  "js_elem xs k = (if k < length xs then Some (xs ! k) else None)"

definition js_template :: "string option \<Rightarrow> string" where
  "js_template v = (case v of None \<Rightarrow> ''undefined'' | Some s \<Rightarrow> s)"

text \<open>\<open>s.startsWith("-")\<close>.\<close>

definition starts_with_dash :: "string \<Rightarrow> bool" where
  "starts_with_dash s = (case s of [] \<Rightarrow> False | c # _ \<Rightarrow> c = CHR ''-'')"


section \<open>The regex explainer\<close>

record ExplainPart =
  token :: string
  meaning :: string

text \<open>The lookup table \<open>escapes\<close> of the escape branch, keyed by the string \<open>next\<close>.\<close>

definition escapes :: "string \<Rightarrow> string option" where
  "escapes = map_of
     [(''d'', ''Any digit (0-9)''),
      (''D'', ''Any non-digit''),
      (''w'', ''Any word character (a-z, A-Z, 0-9, _)''),
      (''W'', ''Any non-word character''),
      (''s'', ''Any whitespace (space, tab, newline)''),
      (''S'', ''Any non-whitespace''),
      (''b'', ''Word boundary''),
      (''B'', ''Non-word boundary''),
      (''n'', ''Newline''),
      (''t'', ''Tab''),
      (''r'', ''Carriage return'')]"

text \<open>The escape branch: \<open>next = pattern[i + 1] || ""\<close>, always two positions forward.\<close>

definition explain_escape :: "string \<Rightarrow> nat \<Rightarrow> ExplainPart \<times> nat" where
  "explain_escape pattern i =
     (let next = (case js_at pattern (i + 1) of None \<Rightarrow> [] | Some c \<Rightarrow> [c]) in
      (case escapes next of
         Some m \<Rightarrow> (\<lparr>token = backslash # next, meaning = m\<rparr>, i + 2)
       | None \<Rightarrow>
           (\<lparr>token = backslash # next, meaning = ''Literal '' @ dquote @ next @ dquote\<rparr>,
            i + 2)))"

text \<open>The character-class branch: an unterminated class runs to the end of the pattern.\<close>

definition explain_class :: "string \<Rightarrow> nat \<Rightarrow> ExplainPart \<times> nat" where
  "explain_class pattern i =
     (let endi = (case js_indexOf pattern (CHR '']'') i of
                    None \<Rightarrow> length pattern
                  | Some e \<Rightarrow> e);
          charClass = js_slice pattern i (endi + 1);
          negated = (js_at pattern (i + 1) = Some (CHR ''^''))
      in (\<lparr>token = charClass,
           meaning = (if negated then ''Any character NOT in '' @ charClass
                      else ''Any character in '' @ charClass)\<rparr>,
          endi + 1))"

text \<open>The group branch, in the order of the source's tests.\<close>

definition explain_group :: "string \<Rightarrow> nat \<Rightarrow> ExplainPart \<times> nat" where
  "explain_group pattern i =
     (if js_slice pattern i (i + 3) = ''(?:'' then
        (\<lparr>token = ''(?:'', meaning = ''Non-capturing group start''\<rparr>, i + 3)
      else if js_slice pattern i (i + 4) = ''(?<='' then
        (\<lparr>token = ''(?<='', meaning = ''Positive lookbehind start''\<rparr>, i + 4)
      else if js_slice pattern i (i + 4) = ''(?<!'' then
        (\<lparr>token = ''(?<!'', meaning = ''Negative lookbehind start''\<rparr>, i + 4)
      else if js_slice pattern i (i + 3) = ''(?='' then
        (\<lparr>token = ''(?='', meaning = ''Positive lookahead start''\<rparr>, i + 3)
      else if js_slice pattern i (i + 3) = ''(?!'' then
        (\<lparr>token = ''(?!'', meaning = ''Negative lookahead start''\<rparr>, i + 3)
      else if js_at pattern (i + 1) = Some (CHR ''?'') \<and> js_at pattern (i + 2) = Some (CHR ''<'') then
        (case js_indexOf pattern (CHR ''>'') (i + 3) of
           Some nameEnd \<Rightarrow>
             (let name = js_slice pattern (i + 3) nameEnd in
              (\<lparr>token = ''(?<'' @ name @ ''>'',
                meaning = ''Named capture group '' @ dquote @ name @ dquote @ '' start''\<rparr>,
               nameEnd + 1))
         | None \<Rightarrow> (\<lparr>token = ''('', meaning = ''Capture group start''\<rparr>, i + 1))
      else (\<lparr>token = ''('', meaning = ''Capture group start''\<rparr>, i + 1))"

text \<open>The bounded-repetition branch; without a closing brace the brace is a literal.\<close>

definition explain_quant :: "string \<Rightarrow> nat \<Rightarrow> ExplainPart \<times> nat" where
  "explain_quant pattern i =
     (case js_indexOf pattern (CHR ''}'') i of
        Some endi \<Rightarrow>
          (let quant = js_slice pattern i (endi + 1);
               inner = js_slice pattern (i + 1) endi
           in if js_includes inner (CHR '','') then
                (let fields = js_split (CHR '','') inner;
                     min = js_elem fields 0;
                     max = js_elem fields 1
                 in if max = Some [] then
                      (\<lparr>token = quant,
                        meaning = js_template min @ '' or more of the previous''\<rparr>, endi + 1)
                    else
                      (\<lparr>token = quant,
                        meaning = ''Between '' @ js_template min @ '' and '' @ js_template max
                                  @ '' of the previous''\<rparr>, endi + 1))
              else
                (\<lparr>token = quant, meaning = ''Exactly '' @ inner @ '' of the previous''\<rparr>,
                 endi + 1))
      | None \<Rightarrow>
          (\<lparr>token = ''{'', meaning = ''Literal '' @ dquote @ ''{'' @ dquote\<rparr>, i + 1))"

text \<open>
  One pass through the body of the \<open>while\<close> loop at position \<open>i < pattern.length\<close>: the
  part pushed and the new value of \<open>i\<close>.
\<close>

definition explain_step :: "string \<Rightarrow> nat \<Rightarrow> ExplainPart \<times> nat" where
  "explain_step pattern i =
     (let ch = pattern ! i in
      if ch = CHR ''^'' then (\<lparr>token = ''^'', meaning = ''Start of string/line''\<rparr>, i + 1)
      else if ch = CHR ''$'' then (\<lparr>token = ''$'', meaning = ''End of string/line''\<rparr>, i + 1)
      else if ch = CHR ''.'' then
        (\<lparr>token = ''.'', meaning = ''Any character (except newline)''\<rparr>, i + 1)
      else if ch = CHR ''*'' then
        (\<lparr>token = ''*'', meaning = ''Zero or more of the previous''\<rparr>, i + 1)
      else if ch = CHR ''+'' then
        (\<lparr>token = ''+'', meaning = ''One or more of the previous''\<rparr>, i + 1)
      else if ch = CHR ''?'' then
        (\<lparr>token = ''?'', meaning = ''Zero or one of the previous (optional)''\<rparr>, i + 1)
      else if ch = CHR ''|'' then (\<lparr>token = ''|'', meaning = ''OR (alternative)''\<rparr>, i + 1)
      else if ch = backslash then explain_escape pattern i
      else if ch = CHR ''['' then explain_class pattern i
      else if ch = CHR ''('' then explain_group pattern i
      else if ch = CHR '')'' then (\<lparr>token = '')'', meaning = ''Group end''\<rparr>, i + 1)
      else if ch = CHR ''{'' then explain_quant pattern i
      else (\<lparr>token = [ch], meaning = ''Literal '' @ dquote @ [ch] @ dquote\<rparr>, i + 1))"

lemma first_index_bound: "first_index c xs = Some k \<Longrightarrow> k < length xs \<and> xs ! k = c"
  by (induction xs arbitrary: k) (auto split: if_splits)

lemma js_indexOf_bound:
  "js_indexOf s c from = Some e \<Longrightarrow> from \<le> e \<and> e < length s \<and> s ! e = c"
  by (auto simp: js_indexOf_def dest!: first_index_bound)

lemma explain_step_advances:
  assumes "i < length pattern"
  shows "i < snd (explain_step pattern i)"
proof -
  have esc: "i < snd (explain_escape pattern i)"
    by (simp add: explain_escape_def Let_def split: option.splits)
  have cls: "i < snd (explain_class pattern i)"
    using assms by (auto simp: explain_class_def Let_def split: option.splits dest: js_indexOf_bound)
  have grp: "i < snd (explain_group pattern i)"
    by (auto simp: explain_group_def Let_def split: option.splits dest: js_indexOf_bound)
  have qnt: "i < snd (explain_quant pattern i)"
    by (auto simp: explain_quant_def Let_def split: option.splits dest: js_indexOf_bound)
  show ?thesis
    using esc cls grp qnt by (simp add: explain_step_def Let_def)
qed

text \<open>The \<open>while\<close> loop of \<open>explainRegex\<close>, with the array \<open>parts\<close> threaded through.\<close>

function explain_loop :: "string \<Rightarrow> nat \<Rightarrow> ExplainPart list \<Rightarrow> ExplainPart list" where
  "explain_loop pattern i parts =
     (if i < length pattern then
        (case explain_step pattern i of
           (part, i') \<Rightarrow> explain_loop pattern i' (parts @ [part]))
      else parts)"
  by pat_completeness auto
termination
proof (relation "measure (\<lambda>(pattern, i, parts). length pattern - i)", goal_cases)
  case 1
  show ?case by simp
next
  case (2 pattern i parts part i')
  have "i < snd (explain_step pattern i)"
    using 2(1) by (rule explain_step_advances)
  then have "i < i'"
    using 2(2) by (metis snd_conv)
  then show ?case
    using 2(1) by simp
qed

declare explain_loop.simps [simp del]

definition explainRegex :: "string \<Rightarrow> ExplainPart list" where
  "explainRegex pattern = explain_loop pattern 0 []"


text \<open>
  The positions at which the loop of \<open>explainRegex\<close> starts a token: position \<open>0\<close>,
  and from each such position below the length the one its step moves to.
\<close>

inductive scan_reaches :: "string \<Rightarrow> nat \<Rightarrow> bool" for pattern :: string where
  start: "scan_reaches pattern 0"
| step: "scan_reaches pattern i \<Longrightarrow> i < length pattern \<Longrightarrow>
         scan_reaches pattern (snd (explain_step pattern i))"

code_pred scan_reaches .


section \<open>Argument parsing\<close>

record Options =
  help_requested :: bool
  json :: bool
  pattern :: string
  strings :: "string list"
  flags :: string
  bulk :: "string option"
  explain :: bool

text \<open>
  The field \<open>help\<close> of the source is \<open>help_requested\<close> here. The optional field
  \<open>bulk\<close> is \<open>None\<close> while it is \<open>undefined\<close>.
\<close>

text \<open>Truthiness of \<open>argv[i + 1]\<close> and of \<open>opts.bulk\<close>: defined and not the empty string.\<close>

definition js_truthy :: "string option \<Rightarrow> bool" where
  "js_truthy v = (case v of None \<Rightarrow> False | Some s \<Rightarrow> s \<noteq> [])"

definition default_opts :: Options where
  "default_opts =
     \<lparr>help_requested = False, json = False, pattern = [], strings = [], flags = ''g'',
      bulk = None, explain = False\<rparr>"

text \<open>
  The body of the loop of \<open>parseArgs\<close> reads \<open>argv[i]\<close> and \<open>argv[i + 1]\<close> only:
  \<open>parse_arg a next opts\<close> is the body for \<open>a = argv[i]\<close> and \<open>next = argv[i + 1]\<close>
  (\<open>None\<close> beyond the end), and returns the options and the number of arguments used,
  the final \<open>i++\<close> included.
\<close>

definition parse_arg :: "string \<Rightarrow> string option \<Rightarrow> Options \<Rightarrow> Options \<times> nat" where
  "parse_arg a next opts =
     (if a = ''--help'' \<or> a = ''-h'' then (opts\<lparr>help_requested := True\<rparr>, 1)
      else if a = ''--json'' then (opts\<lparr>json := True\<rparr>, 1)
      else if a = ''--explain'' then (opts\<lparr>explain := True\<rparr>, 1)
      else if a = ''--flags'' \<and> js_truthy next then (opts\<lparr>flags := the next\<rparr>, 2)
      else if a = ''--bulk'' \<and> js_truthy next then (opts\<lparr>bulk := next\<rparr>, 2)
      else if pattern opts = [] \<and> \<not> starts_with_dash a then (opts\<lparr>pattern := a\<rparr>, 1)
      else if pattern opts \<noteq> [] \<and> \<not> starts_with_dash a then
        (opts\<lparr>strings := strings opts @ [a]\<rparr>, 1)
      else (opts, 1))"

text \<open>One pass through the loop at \<open>i < argv.length\<close>: the options and the new \<open>i\<close>.\<close>

definition parse_step :: "string list \<Rightarrow> nat \<Rightarrow> Options \<Rightarrow> Options \<times> nat" where
  "parse_step argv i opts =
     (case parse_arg (argv ! i) (js_elem argv (i + 1)) opts of
        (opts', n) \<Rightarrow> (opts', i + n))"

lemma parse_step_advances: "i < snd (parse_step argv i opts)"
  by (simp add: parse_step_def parse_arg_def)

function parse_loop :: "string list \<Rightarrow> nat \<Rightarrow> Options \<Rightarrow> Options" where
  "parse_loop argv i opts =
     (if i < length argv then
        (case parse_step argv i opts of (opts', i') \<Rightarrow> parse_loop argv i' opts')
      else opts)"
  by pat_completeness auto
termination
proof (relation "measure (\<lambda>(argv, i, opts). length argv - i)", goal_cases)
  case 1
  show ?case by simp
next
  case (2 argv i opts opts' i')
  have "i < snd (parse_step argv i opts)"
    by (rule parse_step_advances)
  then have "i < i'"
    using 2(2) by (metis snd_conv)
  then show ?case
    using 2(1) by simp
qed

declare parse_loop.simps [simp del]

definition parseArgs :: "string list \<Rightarrow> Options" where
  "parseArgs argv = parse_loop argv 0 default_opts"





section \<open>Match processing\<close>

subsection \<open>Terminal colours\<close>

definition ESC :: string where
  "ESC = [CHR 0x1B]"

definition c_reset :: string where "c_reset = ESC @ ''[0m''"
definition c_bold :: string where "c_bold = ESC @ ''[1m''"
definition c_dim :: string where "c_dim = ESC @ ''[2m''"
definition c_red :: string where "c_red = ESC @ ''[31m''"
definition c_green :: string where "c_green = ESC @ ''[32m''"
definition c_yellow :: string where "c_yellow = ESC @ ''[33m''"
definition c_magenta :: string where "c_magenta = ESC @ ''[35m''"
definition c_cyan :: string where "c_cyan = ESC @ ''[36m''"
definition c_bgRed :: string where "c_bgRed = ESC @ ''[41m''"
definition c_bgGreen :: string where "c_bgGreen = ESC @ ''[42m''"
definition c_bgYellow :: string where "c_bgYellow = ESC @ ''[43m''"
definition c_bgBlue :: string where "c_bgBlue = ESC @ ''[44m''"
definition c_bgMagenta :: string where "c_bgMagenta = ESC @ ''[45m''"
definition c_bgCyan :: string where "c_bgCyan = ESC @ ''[46m''"

definition MATCH_COLORS :: "string list" where
  "MATCH_COLORS = [c_bgGreen, c_bgYellow, c_bgCyan, c_bgMagenta, c_bgBlue, c_bgRed]"

subsection \<open>The host's regular expressions\<close>

text \<open>
  The regex engine is the host's, not the program's: it is a parameter of the model.
  \<open>RegExpExecArray\<close> is what a successful \<open>exec\<close> returns: \<open>match[0]\<close>, \<open>match.index\<close>,
  \<open>match.slice(1)\<close> (a capture that did not take part is \<open>undefined\<close>, here \<open>None\<close>) and
  \<open>match.groups\<close> (\<open>undefined\<close> when the pattern names no group; the value of a named
  group that did not take part is \<open>undefined\<close>).
\<close>

record RegExpExecArray =
  match_text :: string
  match_index :: nat
  match_captures :: "string option list"
  match_groups :: "(string \<times> string option) list option"

text \<open>
  A compiled regex, as a function: the subject string and the cursor \<open>lastIndex\<close> at which
  the search starts give the match found, if any.
\<close>

type_synonym RegExp = "string \<Rightarrow> nat \<Rightarrow> RegExpExecArray option"

text \<open>
  \<open>regex.exec(input)\<close> on a regex with the global flag, with the cursor made explicit: no
  match beyond the end of the subject; a failed search resets the cursor to \<open>0\<close>; a
  successful one leaves it at the end of the match.
\<close>

definition regex_exec :: "RegExp \<Rightarrow> string \<Rightarrow> nat \<Rightarrow> RegExpExecArray option \<times> nat" where
  "regex_exec regex subject lastIndex =
     (if length subject < lastIndex then (None, 0)
      else (case regex subject lastIndex of
              None \<Rightarrow> (None, 0)
            | Some m \<Rightarrow> (Some m, match_index m + length (match_text m))))"

subsection \<open>testString\<close>

record MatchRecord =
  full :: string
  index :: nat
  groups :: "string option list"
  namedGroups :: "(string \<times> string option) list"

record MatchResult =
  input :: string
  matches :: "MatchRecord list"
  highlighted :: string

text \<open>The object pushed onto \<open>result.matches\<close> for a raw match.\<close>

definition match_record :: "RegExpExecArray \<Rightarrow> MatchRecord" where
  "match_record m =
     \<lparr>full = match_text m,
      index = match_index m,
      groups = match_captures m,
      namedGroups = (case match_groups m of None \<Rightarrow> [] | Some g \<Rightarrow> g)\<rparr>"

text \<open>
  The \<open>while\<close> loop of the global branch. Whether it ends depends on the answers of the
  host's \<open>exec\<close>, so the loop is a partial function: \<open>None\<close> is a run that never leaves it.
\<close>

partial_function (option) collect_matches ::
    "RegExp \<Rightarrow> string \<Rightarrow> nat \<Rightarrow> MatchRecord list \<Rightarrow> MatchRecord list option" where
  "collect_matches regex subject lastIndex acc =
     (case regex_exec regex subject lastIndex of
        (None, _) \<Rightarrow> Some acc
      | (Some m, lastIndex') \<Rightarrow>
          collect_matches regex subject
            (if length (match_text m) = 0 then lastIndex' + 1 else lastIndex')
            (acc @ [match_record m]))"

text \<open>The loop that builds the highlighted string: \<open>mi\<close>, \<open>lastEnd\<close> and \<open>highlighted\<close>.\<close>

fun highlight_loop ::
    "string \<Rightarrow> MatchRecord list \<Rightarrow> nat \<Rightarrow> nat \<Rightarrow> string \<Rightarrow> string \<times> nat" where
  "highlight_loop subject [] mi lastEnd hl = (hl, lastEnd)"
| "highlight_loop subject (m # ms) mi lastEnd hl =
     (let color = MATCH_COLORS ! (mi mod length MATCH_COLORS)
      in highlight_loop subject ms (mi + 1) (index m + length (full m))
           (hl @ js_slice subject lastEnd (index m) @ color @ c_bold @ full m @ c_reset))"

definition build_highlighted :: "string \<Rightarrow> MatchRecord list \<Rightarrow> string" where
  "build_highlighted subject ms =
     (if length ms > 0 then
        (case highlight_loop subject ms 0 0 [] of
           (hl, lastEnd) \<Rightarrow> hl @ js_slice_from subject lastEnd)
      else subject)"

text \<open>
  The rest of the host: \<open>new RegExp(pattern, flags)\<close> returns the compiled regex or throws
  (\<open>Inl\<close> the message), \<open>readFileSync(path, "utf-8")\<close> returns the content or throws, and
  \<open>JSON.stringify(value, null, indent)\<close>.
\<close>

datatype js_value =
    JUndefined
  | JString string
  | JNumber nat
  | JArray "js_value list"
  | JObject "(string \<times> js_value) list"

record Host =
  RegExp_new :: "string \<Rightarrow> string \<Rightarrow> string + RegExp"
  readFileSync :: "string \<Rightarrow> string + string"
  JSON_stringify :: "js_value \<Rightarrow> nat \<Rightarrow> string"

text \<open>
  \<open>testString\<close>: \<open>Inl\<close> is \<open>process.exit(1)\<close> with the lines written to standard error,
  \<open>Inr\<close> the result returned, \<open>None\<close> a run that does not return.
\<close>

definition testString ::
    "Host \<Rightarrow> string \<Rightarrow> string \<Rightarrow> string \<Rightarrow> (string list + MatchResult) option" where
  "testString h pat fl subject =
     (case RegExp_new h pat fl of
        Inl msg \<Rightarrow> Some (Inl [c_red @ ''Invalid regex:'' @ c_reset @ '' '' @ msg])
      | Inr regex \<Rightarrow>
          (case (if js_includes fl (CHR ''g'') then collect_matches regex subject 0 []
                 else Some (case regex subject 0 of
                              None \<Rightarrow> []
                            | Some m \<Rightarrow> [match_record m])) of
             None \<Rightarrow> None
           | Some ms \<Rightarrow>
               Some (Inr \<lparr>input = subject, matches = ms,
                          highlighted = build_highlighted subject ms\<rparr>)))"


subsection \<open>What the results are measured against\<close>

text \<open>
  The cursors at which the global loop calls \<open>exec\<close> on a subject: \<open>0\<close>, and after each
  match the cursor that the loop leaves for the next call. Without the global flag there
  is the one call, from the start of the subject.
\<close>

inductive exec_cursor :: "RegExp \<Rightarrow> string \<Rightarrow> nat \<Rightarrow> bool"
  for regex :: RegExp and subject :: string where
  first: "exec_cursor regex subject 0"
| later: "exec_cursor regex subject k \<Longrightarrow> regex_exec regex subject k = (Some m, lastIndex') \<Longrightarrow>
          exec_cursor regex subject
            (if length (match_text m) = 0 then lastIndex' + 1 else lastIndex')"

code_pred exec_cursor .

definition run_cursor :: "string \<Rightarrow> RegExp \<Rightarrow> string \<Rightarrow> nat \<Rightarrow> bool" where
  "run_cursor fl regex subject k \<longleftrightarrow>
     (if js_includes fl (CHR ''g'') then exec_cursor regex subject k else k = 0)"

text \<open>
  What the properties of the results ask of the host's \<open>exec\<close>, at the cursors of the
  run and nowhere else. \<open>exec_progress\<close>: a match found from the cursor \<open>k\<close> starts at or
  after \<open>k\<close>. \<open>exec_contract\<close>: it also lies inside the subject, and its text is the
  subject's text at its place.
\<close>

definition exec_progress :: "string \<Rightarrow> RegExp \<Rightarrow> string \<Rightarrow> bool" where
  "exec_progress fl regex subject \<longleftrightarrow>
     (\<forall>k m. run_cursor fl regex subject k \<and> k \<le> length subject \<and> regex subject k = Some m \<longrightarrow>
        k \<le> match_index m)"









subsection \<open>Hosts for concrete runs\<close>

text \<open>
  The answers of the host for some regexes, for use in runs on concrete inputs:
  \<open>literal_regex c\<close> for a pattern that is the one literal character \<open>c\<close>;
  \<open>named_alt_regex\<close> for the pattern \<open>(?<a>x)|(?<b>y)\<close>; and \<open>empty_regex_u inside\<close> for
  a pattern that matches only the empty string on the subject, compiled with the \<open>u\<close>
  flag, where \<open>inside k\<close> says that the cursor \<open>k\<close> lies between the two code units of
  a surrogate pair of the subject: the search from such a cursor starts at the first unit
  of the pair. \<open>host_with regex stringify\<close> is a host whose \<open>RegExp\<close> constructor
  returns \<open>regex\<close> and that has no readable file.
\<close>

definition literal_regex :: "char \<Rightarrow> RegExp" where
  "literal_regex c subject k =
     (case js_indexOf subject c k of
        None \<Rightarrow> None
      | Some j \<Rightarrow> Some \<lparr>match_text = [c], match_index = j, match_captures = [],
                        match_groups = None\<rparr>)"

definition named_alt_regex :: RegExp where
  "named_alt_regex subject k =
     (case filter (\<lambda>j. subject ! j = CHR ''x'' \<or> subject ! j = CHR ''y'') [k ..< length subject] of
        [] \<Rightarrow> None
      | j # _ \<Rightarrow>
          (let a = (if subject ! j = CHR ''x'' then Some ''x'' else None);
               b = (if subject ! j = CHR ''y'' then Some ''y'' else None)
           in Some \<lparr>match_text = [subject ! j], match_index = j, match_captures = [a, b],
                     match_groups = Some [(''a'', a), (''b'', b)]\<rparr>))"

definition empty_regex_u :: "(nat \<Rightarrow> bool) \<Rightarrow> RegExp" where
  "empty_regex_u inside subject k =
     (if length subject < k then None
      else Some \<lparr>match_text = [], match_index = (if inside k then k - 1 else k),
                 match_captures = [], match_groups = None\<rparr>)"


definition no_json :: "js_value \<Rightarrow> nat \<Rightarrow> string" where
  "no_json v indent = []"

definition host_with :: "RegExp \<Rightarrow> (js_value \<Rightarrow> nat \<Rightarrow> string) \<Rightarrow> Host" where
  "host_with regex stringify =
     \<lparr>RegExp_new = (\<lambda>pat fl. Inr regex),
      readFileSync = (\<lambda>path. Inl ''ENOENT''),
      JSON_stringify = stringify\<rparr>"


section \<open>Rendering and the driver\<close>

definition newline :: string where
  "newline = [CHR 0x0A]"

text \<open>A number inside a template literal: its decimal digits.\<close>

fun nat_to_string :: "nat \<Rightarrow> string" where
  "nat_to_string n =
     (if n < 10 then [char_of (48 + n)]
      else nat_to_string (n div 10) @ [char_of (48 + n mod 10)])"

declare nat_to_string.simps [simp del]

text \<open>\<open>s.padEnd(n)\<close>: spaces up to length \<open>n\<close>.\<close>

definition js_padEnd :: "string \<Rightarrow> nat \<Rightarrow> string" where
  "js_padEnd s n = s @ replicate (n - length s) (CHR '' '')"

text \<open>
  Standard output is a list with one entry for each call of \<open>console.log\<close>, standard
  error one for each call of \<open>console.error\<close>. The check mark and the cross of
  \<open>renderResult\<close> are outside ASCII and are written as their UTF-8 bytes.
\<close>

definition check_mark :: string where
  "check_mark = [CHR 0xE2, CHR 0x9C, CHR 0x93]"

definition cross_mark :: string where
  "cross_mark = [CHR 0xE2, CHR 0x9C, CHR 0x97]"

definition HELP_lines :: "string list" where
  "HELP_lines =
     [c_bold @ c_cyan @ ''  regex-test'' @ c_reset @ ''  Test regex patterns from the terminal'',
      [],
      c_bold @ ''USAGE'' @ c_reset,
      ''  '' @ c_green @ ''npx @lxgicstudios/regex-test'' @ c_reset @ '' <pattern> <string> [string...] [options]'',
      [],
      c_bold @ ''OPTIONS'' @ c_reset,
      ''  '' @ c_yellow @ ''--help, -h'' @ c_reset @ ''       Show this help message'',
      ''  '' @ c_yellow @ ''--json'' @ c_reset @ ''           Output results as JSON'',
      ''  '' @ c_yellow @ ''--flags <f>'' @ c_reset @ ''      Regex flags (default: '' @ dquote @ ''g'' @ dquote @ ''). e.g., '' @ dquote @ ''gi'' @ dquote @ '', '' @ dquote @ ''gm'' @ dquote,
      ''  '' @ c_yellow @ ''--bulk <file>'' @ c_reset @ ''    Test pattern against each line in a file'',
      ''  '' @ c_yellow @ ''--explain'' @ c_reset @ ''        Break down the regex pattern in plain English'',
      [],
      c_bold @ ''EXAMPLES'' @ c_reset,
      ''  '' @ c_dim @ ''$ regex-test '' @ dquote @ [backslash] @ ''d+'' @ dquote @ '' '' @ dquote @ ''abc123def456'' @ dquote @ c_reset,
      ''  '' @ c_dim @ ''$ regex-test '' @ dquote @ ''('' @ [backslash] @ ''w+)@('' @ [backslash] @ ''w+)'' @ dquote @ '' '' @ dquote @ ''user@host'' @ dquote @ '' --flags gi'' @ c_reset,
      ''  '' @ c_dim @ ''$ regex-test '' @ dquote @ ''(?<year>'' @ [backslash] @ ''d{4})-(?<month>'' @ [backslash] @ ''d{2})'' @ dquote @ '' '' @ dquote @ ''2025-01-15'' @ dquote @ c_reset,
      ''  '' @ c_dim @ ''$ regex-test '' @ dquote @ ''error|warn'' @ dquote @ '' --bulk /var/log/app.log --flags gi'' @ c_reset,
      ''  '' @ c_dim @ ''$ regex-test '' @ dquote @ ''^'' @ [backslash] @ ''d{3}-'' @ [backslash] @ ''d{4}$'' @ dquote @ '' --explain'' @ c_reset]"

text \<open>The template literal \<open>HELP\<close> opens and closes with a line break.\<close>

definition HELP :: string where
  "HELP = newline @ concat (map (\<lambda>l. l @ newline) HELP_lines)"

text \<open>What explain mode prints for a pattern.\<close>

definition explain_output :: "string \<Rightarrow> string list" where
  "explain_output pat =
     [newline @ c_bold @ c_cyan @ ''  Regex Breakdown'' @ c_reset,
      ''  '' @ c_dim @ ''Pattern:'' @ c_reset @ '' '' @ c_yellow @ ''/'' @ pat @ ''/'' @ c_reset
        @ newline]
     @ map (\<lambda>part. ''  '' @ c_bold @ c_green @ js_padEnd (token part) 15 @ c_reset @ '' ''
                     @ c_dim @ meaning part @ c_reset)
         (explainRegex pat)
     @ [[]]"

text \<open>The lines of \<open>renderResult\<close> for the match at position \<open>i\<close> of \<open>result.matches\<close>.\<close>

definition render_match :: "nat \<Rightarrow> MatchRecord \<Rightarrow> string list" where
  "render_match i m =
     (let color = MATCH_COLORS ! (i mod length MATCH_COLORS);
          namedKeys = map fst (namedGroups m)
      in [newline @ ''  '' @ color @ '' Match '' @ nat_to_string (i + 1) @ '' '' @ c_reset
            @ '' '' @ dquote @ c_bold @ full m @ c_reset @ dquote @ '' at index ''
            @ nat_to_string (index m)]
         @ (if length (groups m) > 0 then
              (''    '' @ c_cyan @ ''Capture groups:'' @ c_reset)
              # map (\<lambda>g. ''      '' @ c_dim @ ''$'' @ nat_to_string (g + 1) @ '':'' @ c_reset
                          @ '' '' @ c_yellow
                          @ (case groups m ! g of None \<Rightarrow> ''(undefined)'' | Some v \<Rightarrow> v)
                          @ c_reset)
                  [0 ..< length (groups m)]
            else [])
         @ (if length namedKeys > 0 then
              (''    '' @ c_magenta @ ''Named groups:'' @ c_reset)
              # map (\<lambda>key. ''      '' @ c_dim @ key @ '':'' @ c_reset @ '' '' @ c_green
                            @ js_template (case map_of (namedGroups m) key of
                                             None \<Rightarrow> None
                                           | Some v \<Rightarrow> v)
                            @ c_reset)
                  namedKeys
            else []))"

definition renderResult :: "MatchResult \<Rightarrow> string list" where
  "renderResult result =
     (let matchCount = length (matches result);
          icon = (if matchCount > 0 then c_green @ check_mark @ c_reset
                  else c_red @ cross_mark @ c_reset)
      in [newline @ ''  '' @ icon @ '' '' @ c_bold @ nat_to_string matchCount @ c_reset
            @ '' match'' @ (if matchCount = 1 then [] else ''es'') @ '' found'',
          ''  '' @ c_dim @ ''Input:'' @ c_reset @ ''   '' @ input result,
          ''  '' @ c_dim @ ''Result:'' @ c_reset @ ''  '' @ highlighted result]
         @ concat (map (\<lambda>i. render_match i (matches result ! i))
                     [0 ..< length (matches result)]))"

text \<open>The value \<open>jsonOut\<close> handed to \<open>JSON.stringify\<close>.\<close>

definition json_string_opt :: "string option \<Rightarrow> js_value" where
  "json_string_opt v = (case v of None \<Rightarrow> JUndefined | Some s \<Rightarrow> JString s)"

definition json_match :: "MatchRecord \<Rightarrow> js_value" where
  "json_match m =
     JObject [(''full'', JString (full m)),
              (''index'', JNumber (index m)),
              (''groups'', JArray (map json_string_opt (groups m))),
              (''namedGroups'',
                 JObject (map (\<lambda>(k, v). (k, json_string_opt v)) (namedGroups m)))]"

definition jsonOut :: "MatchResult list \<Rightarrow> js_value" where
  "jsonOut allResults =
     JArray (map (\<lambda>r. JObject [(''input'', JString (input r)),
                                (''matchCount'', JNumber (length (matches r))),
                                (''matches'', JArray (map json_match (matches r)))])
               allResults)"

record Outcome =
  stdout :: "string list"
  stderr :: "string list"
  exit_code :: nat

text \<open>
  The test strings of a run: those of the bulk file when one is given (one for each
  non-empty line), the positional ones otherwise. \<open>Inl\<close> is the message of a failed read.
\<close>

definition load_strings :: "Host \<Rightarrow> Options \<Rightarrow> string + string list" where
  "load_strings h opts =
     (case bulk opts of
        None \<Rightarrow> Inr (strings opts)
      | Some path \<Rightarrow>
          if path \<noteq> [] then
            (case readFileSync h path of
               Inl msg \<Rightarrow> Inl msg
             | Inr content \<Rightarrow> Inr (filter (\<lambda>l. l \<noteq> []) (js_split (CHR 0x0A) content)))
          else Inr (strings opts))"

text \<open>
  The \<open>for\<close> loop of \<open>main\<close> over the test strings, with \<open>allResults\<close> and the lines
  printed so far. \<open>Inl\<close> is the exit inside \<open>testString\<close>: the lines printed before it
  and those written to standard error.
\<close>

fun test_all ::
    "Host \<Rightarrow> Options \<Rightarrow> string list \<Rightarrow> MatchResult list \<Rightarrow> string list
     \<Rightarrow> ((string list \<times> string list) + (MatchResult list \<times> string list)) option" where
  "test_all h opts [] allResults out = Some (Inr (allResults, out))"
| "test_all h opts (str # rest) allResults out =
     (case testString h (pattern opts) (flags opts) str of
        None \<Rightarrow> None
      | Some (Inl errs) \<Rightarrow> Some (Inl (out, errs))
      | Some (Inr result) \<Rightarrow>
          test_all h opts rest (allResults @ [result])
            (if \<not> json opts then out @ renderResult result else out))"

text \<open>
  The part of \<open>main\<close> that follows once the test strings are known and not empty: the
  header, the loop, and the JSON document or the summary. \<open>out1\<close> is what was printed
  before.
\<close>

definition run_strings :: "Host \<Rightarrow> Options \<Rightarrow> string list \<Rightarrow> string list \<Rightarrow> Outcome option" where
  "run_strings h opts strs out1 =
     (let out2 = out1
            @ [newline @ c_bold @ c_cyan @ ''  regex-test'' @ c_reset,
               ''  '' @ c_dim @ ''Pattern:'' @ c_reset @ '' '' @ c_yellow @ ''/''
                 @ pattern opts @ ''/'' @ flags opts @ c_reset]
      in case test_all h opts strs [] out2 of
           None \<Rightarrow> None
         | Some (Inl (out3, errs)) \<Rightarrow>
             Some \<lparr>stdout = out3, stderr = errs, exit_code = 1\<rparr>
         | Some (Inr (allResults, out3)) \<Rightarrow>
             Some \<lparr>stdout = out3
                     @ (if json opts then [JSON_stringify h (jsonOut allResults) 2]
                        else [])
                     @ (if length strs > 1 \<and> \<not> json opts then
                          [newline @ ''  '' @ c_bold @ ''Summary:'' @ c_reset @ '' ''
                           @ c_green
                           @ nat_to_string
                               (length (filter (\<lambda>r. length (matches r) > 0) allResults))
                           @ c_reset @ ''/'' @ nat_to_string (length strs)
                           @ '' strings matched'']
                        else [])
                     @ [[]],
                   stderr = [], exit_code = 0\<rparr>)"

text \<open>
  \<open>main\<close> on the arguments after the script name. A run that ends without a call of
  \<open>process.exit\<close> has exit code \<open>0\<close>; \<open>None\<close> is a run that does not end.
\<close>

definition main :: "Host \<Rightarrow> string list \<Rightarrow> Outcome option" where
  "main h argv =
     (let opts = parseArgs argv in
      if help_requested opts then Some \<lparr>stdout = [HELP], stderr = [], exit_code = 0\<rparr>
      else if pattern opts = [] then
        Some \<lparr>stdout = [],
              stderr = [c_red @ ''Error:'' @ c_reset @ '' Please provide a regex pattern.'',
                        c_dim @ ''Run with --help for usage info.'' @ c_reset],
              exit_code = 1\<rparr>
      else
        (let out1 = (if explain opts then explain_output (pattern opts) else []) in
         if explain opts \<and> length (strings opts) = 0 \<and> \<not> js_truthy (bulk opts) then
           Some \<lparr>stdout = out1, stderr = [], exit_code = 0\<rparr>
         else
           (case load_strings h opts of
              Inl msg \<Rightarrow>
                Some \<lparr>stdout = out1,
                      stderr = [c_red @ ''Error reading file:'' @ c_reset @ '' '' @ msg],
                      exit_code = 1\<rparr>
            | Inr strs \<Rightarrow>
                if length strs = 0 then
                  Some \<lparr>stdout = out1,
                        stderr = [c_red @ ''Error:'' @ c_reset
                                  @ '' Provide test strings as arguments or use --bulk <file>.''],
                        exit_code = 1\<rparr>
                else run_strings h opts strs out1)))"

section \<open>Properties of the explainer\<close>

subsection \<open>Token spans\<close>

lemma js_slice_Cons:
  assumes "i < length p" and "i < j"
  shows "js_slice p i j = p ! i # js_slice p (Suc i) j"
proof -
  have d: "drop i p = p ! i # drop (Suc i) p"
    using assms(1) by (simp add: Cons_nth_drop_Suc)
  have j: "j - i = Suc (j - Suc i)"
    using assms(2) by simp
  show ?thesis
    unfolding js_slice_def d j by simp
qed

lemma js_slice_snoc:
  assumes "a \<le> e" and "e < length p"
  shows "js_slice p a (Suc e) = js_slice p a e @ [p ! e]"
proof -
  have l: "e - a < length (drop a p)"
    using assms by simp
  have s: "Suc e - a = Suc (e - a)"
    using assms(1) by simp
  have n: "drop a p ! (e - a) = p ! e"
    using assms by simp
  show ?thesis
    unfolding js_slice_def s using take_Suc_conv_app_nth[OF l] n by simp
qed

lemma js_slice_empty: "js_slice p i i = []"
  by (simp add: js_slice_def)

lemma js_slice_beyond: "length p \<le> i \<Longrightarrow> js_slice p i j = []"
  by (simp add: js_slice_def)

lemma js_slice_one: "i < length p \<Longrightarrow> js_slice p i (Suc i) = [p ! i]"
  by (simp add: js_slice_Cons js_slice_empty)

lemma explain_escape_span:
  assumes "i < length p" and "p ! i = backslash"
  shows "token (fst (explain_escape p i)) = js_slice p i (snd (explain_escape p i))"
proof (cases "Suc i < length p")
  case True
  then have "js_slice p i (i + 2) = [backslash, p ! Suc i]"
    using assms by (simp add: js_slice_Cons js_slice_empty)
  then show ?thesis
    using True by (simp add: explain_escape_def Let_def js_at_def split: option.splits)
next
  case False
  then have "js_slice p i (i + 2) = [backslash]"
    using assms by (simp add: js_slice_Cons js_slice_beyond)
  then show ?thesis
    using False by (simp add: explain_escape_def Let_def js_at_def split: option.splits)
qed

lemma explain_class_span: "token (fst (explain_class p i)) = js_slice p i (snd (explain_class p i))"
  by (simp add: explain_class_def Let_def)

lemma named_group_span:
  assumes "i < length p" and "p ! i = CHR ''(''"
    and "js_at p (i + 1) = Some (CHR ''?'')" and "js_at p (i + 2) = Some (CHR ''<'')"
    and "js_indexOf p (CHR ''>'') (i + 3) = Some e"
  shows "''(?<'' @ js_slice p (i + 3) e @ ''>'' = js_slice p i (e + 1)"
proof -
  from js_indexOf_bound[OF assms(5)] have e: "i + 3 \<le> e" "e < length p" "p ! e = CHR ''>''"
    by simp_all
  have q: "Suc i < length p" "p ! Suc i = CHR ''?''" "Suc (Suc i) < length p" "p ! Suc (Suc i) = CHR ''<''"
    using assms(3,4) by (simp_all add: js_at_def split: if_splits)
  have "js_slice p i (Suc e) = p ! i # p ! Suc i # p ! Suc (Suc i) # js_slice p (Suc (Suc (Suc i))) (Suc e)"
    using e assms(1) q by (simp add: js_slice_Cons)
  also have "js_slice p (Suc (Suc (Suc i))) (Suc e) = js_slice p (Suc (Suc (Suc i))) e @ [p ! e]"
    using e by (simp add: js_slice_snoc)
  finally show ?thesis
    using assms(2) q e(3) by (simp add: numeral_3_eq_3)
qed

lemma explain_group_span:
  assumes "i < length p" and "p ! i = CHR ''(''"
  shows "token (fst (explain_group p i)) = js_slice p i (snd (explain_group p i))"
  using assms named_group_span[OF assms]
  by (simp add: explain_group_def Let_def js_slice_one split: option.splits)

lemma explain_quant_span: "i < length p \<Longrightarrow> p ! i = CHR ''{'' \<Longrightarrow>
   token (fst (explain_quant p i)) = js_slice p i (snd (explain_quant p i))"
  by (simp add: explain_quant_def Let_def js_slice_one split: option.splits)

lemma explain_step_span:
  assumes "i < length p"
  shows "token (fst (explain_step p i)) = js_slice p i (snd (explain_step p i))"
  using assms explain_escape_span[OF assms] explain_class_span[of p i] explain_group_span[OF assms] explain_quant_span[OF assms]
  by (simp add: explain_step_def Let_def js_slice_one)

lemma explain_loop_concat:
  "concat (map token parts) = take i p \<Longrightarrow>
   concat (map token (explain_loop p i parts)) = p"
proof (induction p i parts rule: explain_loop.induct)
  case (1 p i parts)
  show ?case
  proof (cases "i < length p")
    case True
    obtain part i' where st: "explain_step p i = (part, i')"
      by (cases "explain_step p i")
    have adv: "i < i'"
      using explain_step_advances[OF True] st by simp
    have tok: "token part = take (i' - i) (drop i p)"
      using explain_step_span[OF True] st by (simp add: js_slice_def)
    have "take i' p = take i p @ take (i' - i) (drop i p)"
      using adv take_add[of i "i' - i" p] by simp
    then have inv: "concat (map token (parts @ [part])) = take i' p"
      using "1.prems" tok by simp
    have "concat (map token (explain_loop p i' (parts @ [part]))) = p"
      using "1.IH"[OF True st[symmetric] inv] .
    then show ?thesis
      using True st by (simp add: explain_loop.simps[of p i])
  next
    case False
    then show ?thesis
      using "1.prems" by (simp add: explain_loop.simps[of p i])
  qed
qed

text \<open>
  Claim C1. For every pattern string, the \<open>token\<close> fields of the parts returned by
  \<open>explainRegex\<close>, concatenated in order, are the p itself: the token spans
  cover the p from left to right with no gap and no overlap. This holds for every
  p, not only for literals and single-character metacharacters.
\<close>

theorem explainRegex_roundtrip: "concat (map token (explainRegex p)) = p"
  unfolding explainRegex_def by (rule explain_loop_concat) simp

subsection \<open>Unfolding the loop\<close>

lemma explain_loop_step:
  "i < length p \<Longrightarrow>
   explain_loop p i parts =
     explain_loop p (snd (explain_step p i)) (parts @ [fst (explain_step p i)])"
  by (subst explain_loop.simps) (simp add: split_beta)

lemma explain_loop_done: "length p \<le> i \<Longrightarrow> explain_loop p i parts = parts"
  by (subst explain_loop.simps) simp

lemma explain_loop_append:
  "explain_loop p i parts = parts @ explain_loop p i []"
proof (induction "length p - i" arbitrary: i parts rule: less_induct)
  case less
  show ?case
  proof (cases "i < length p")
    case True
    define part where "part = fst (explain_step p i)"
    define i' where "i' = snd (explain_step p i)"
    have adv: "i < i'"
      unfolding i'_def using True by (rule explain_step_advances)
    then have m: "length p - i' < length p - i"
      using True by simp
    have "explain_loop p i' (parts @ [part]) = (parts @ [part]) @ explain_loop p i' []"
      using less[OF m] .
    moreover have "explain_loop p i' [part] = [part] @ explain_loop p i' []"
      using less[OF m] .
    ultimately show ?thesis
      using explain_loop_step[OF True, of parts] explain_loop_step[OF True, of "[]"]
      by (simp add: part_def i'_def)
  next
    case False
    then show ?thesis
      by (simp add: explain_loop_done)
  qed
qed

lemma explain_loop_length:
  "length (explain_loop p i parts) \<le> length parts + (length p - i)"
proof (induction "length p - i" arbitrary: i parts rule: less_induct)
  case less
  show ?case
  proof (cases "i < length p")
    case True
    define part where "part = fst (explain_step p i)"
    define i' where "i' = snd (explain_step p i)"
    have adv: "i < i'"
      unfolding i'_def using True by (rule explain_step_advances)
    then have m: "length p - i' < length p - i"
      using True by simp
    have "length (explain_loop p i' (parts @ [part]))
            \<le> length (parts @ [part]) + (length p - i')"
      using less[OF m] .
    also have "\<dots> \<le> length parts + (length p - i)"
      using adv True by simp
    finally show ?thesis
      using explain_loop_step[OF True, of parts] by (simp add: part_def i'_def)
  next
    case False
    then show ?thesis
      by (simp add: explain_loop_done)
  qed
qed

lemma scan_reaches_loop:
  "scan_reaches p i \<Longrightarrow> \<exists>parts. explainRegex p = explain_loop p i parts"
proof (induction rule: scan_reaches.induct)
  case start
  show ?case
    unfolding explainRegex_def by blast
next
  case (step i)
  then obtain parts where "explainRegex p = explain_loop p i parts"
    by blast
  then have "explainRegex p =
      explain_loop p (snd (explain_step p i)) (parts @ [fst (explain_step p i)])"
    using explain_loop_step[of i p parts] step.hyps by simp
  then show ?case
    by blast
qed

lemma scan_reaches_emits:
  assumes "scan_reaches p i" and "i < length p"
  shows "fst (explain_step p i) \<in> set (explainRegex p)"
proof -
  obtain parts where "explainRegex p = explain_loop p i parts"
    using scan_reaches_loop[OF assms(1)] by blast
  then have "explainRegex p =
      explain_loop p (snd (explain_step p i)) (parts @ [fst (explain_step p i)])"
    using explain_loop_step[OF assms(2), of parts] by simp
  then have "explainRegex p =
      (parts @ [fst (explain_step p i)]) @ explain_loop p (snd (explain_step p i)) []"
    using explain_loop_append[of p "snd (explain_step p i)" "parts @ [fst (explain_step p i)]"]
    by simp
  then show ?thesis
    by simp
qed

subsection \<open>Bounded repetition\<close>

lemma js_split_nonempty: "js_split sep s \<noteq> []"
  by (induction s) (auto split: list.splits)

lemma js_split_first:
  "js_elem (js_split sep s) 0 = Some (takeWhile (\<lambda>c. c \<noteq> sep) s)"
  using js_split_nonempty[of sep]
  by (induction s) (auto simp: js_elem_def split: list.splits)

lemma js_split_second:
  "sep \<in> set s \<Longrightarrow>
   js_elem (js_split sep s) (Suc 0) =
     Some (takeWhile (\<lambda>c. c \<noteq> sep) (tl (dropWhile (\<lambda>c. c \<noteq> sep) s)))"
proof (induction s)
  case Nil
  then show ?case by simp
next
  case (Cons c cs)
  show ?case
  proof (cases "c = sep")
    case True
    then show ?thesis
      using js_split_first[of sep cs] js_split_nonempty[of sep cs]
      by (simp add: js_elem_def)
  next
    case False
    then have "sep \<in> set cs"
      using Cons.prems by simp
    then show ?thesis
      using Cons.IH False by (auto simp: js_elem_def split: list.splits)
  qed
qed

text \<open>
  Claim C2, as amended. When the scan stands on a \<open>{\<close> that has a later \<open>}\<close>, the part
  pushed has the whole bracketed span as its token, and, with \<open>inner\<close> the text between
  the braces, \<open>mn\<close> the text of \<open>inner\<close> before its first comma and \<open>mx\<close> the text between
  its first and its second comma (up to the end when there is no second comma), the
  meaning is \<open>Exactly inner of the previous\<close> when \<open>inner\<close> has no comma, \<open>mn or more of
  the previous\<close> when \<open>mx\<close> is empty, and \<open>Between mn and mx of the previous\<close> otherwise.
  Nothing is validated; text after a second comma is in the token but not in the meaning.
\<close>

theorem bounded_repetition_token:
  assumes "scan_reaches p i" and "i < length p"
    and "p ! i = CHR ''{''" and "js_indexOf p (CHR ''}'') i = Some e"
  shows "(let inner = js_slice p (i + 1) e;
              mn = takeWhile (\<lambda>c. c \<noteq> CHR '','') inner;
              mx = takeWhile (\<lambda>c. c \<noteq> CHR '','') (tl (dropWhile (\<lambda>c. c \<noteq> CHR '','') inner));
              part = \<lparr>token = ''{'' @ inner @ ''}'',
                      meaning =
                        (if CHR '','' \<notin> set inner then ''Exactly '' @ inner @ '' of the previous''
                         else if mx = [] then mn @ '' or more of the previous''
                         else ''Between '' @ mn @ '' and '' @ mx @ '' of the previous'')\<rparr>
          in ''{'' @ inner @ ''}'' = js_slice p i (e + 1)
             \<and> explain_step p i = (part, e + 1)
             \<and> part \<in> set (explainRegex p))"
proof -
  from js_indexOf_bound[OF assms(4)] have e: "i \<le> e" "e < length p" "p ! e = CHR ''}''"
    by simp_all
  have ie: "i < e"
    using e assms(3) by (cases "i = e") auto
  have "js_slice p i (Suc e) = js_slice p i e @ [p ! e]"
    using e by (simp add: js_slice_snoc)
  moreover have "js_slice p i e = p ! i # js_slice p (Suc i) e"
    using assms(2) ie by (rule js_slice_Cons)
  ultimately have sp: "js_slice p i (e + 1) = ''{'' @ js_slice p (i + 1) e @ ''}''"
    using assms(3) e(3) by simp
  define inner where "inner = js_slice p (i + 1) e"
  define mn where "mn = takeWhile (\<lambda>c. c \<noteq> CHR '','') inner"
  define mx where "mx = takeWhile (\<lambda>c. c \<noteq> CHR '','') (tl (dropWhile (\<lambda>c. c \<noteq> CHR '','') inner))"
  define m where "m = (if CHR '','' \<notin> set inner then ''Exactly '' @ inner @ '' of the previous''
                         else if mx = [] then mn @ '' or more of the previous''
                         else ''Between '' @ mn @ '' and '' @ mx @ '' of the previous'')"
  have st: "explain_step p i = explain_quant p i"
    using assms(3) by (simp add: explain_step_def Let_def backslash_def)
  have "explain_quant p i = (\<lparr>token = js_slice p i (e + 1), meaning = m\<rparr>, e + 1)"
    unfolding m_def mx_def mn_def inner_def
    by (simp add: explain_quant_def assms(4) Let_def js_includes_def
          js_split_first js_split_second js_template_def)
  then have stp: "explain_step p i = (\<lparr>token = ''{'' @ inner @ ''}'', meaning = m\<rparr>, e + 1)"
    using st sp by (simp add: inner_def)
  have "fst (explain_step p i) \<in> set (explainRegex p)"
    using scan_reaches_emits[OF assms(1,2)] .
  then have emit: "\<lparr>token = ''{'' @ inner @ ''}'', meaning = m\<rparr> \<in> set (explainRegex p)"
    using stp by simp
  have sp': "''{'' @ inner @ ''}'' = js_slice p i (e + 1)"
    using sp by (simp add: inner_def)
  show ?thesis
    using sp' stp emit
    unfolding Let_def inner_def[symmetric] mn_def[symmetric] mx_def[symmetric] m_def[symmetric]
    by blast
qed

theorem bounded_repetition_token_witness:
  "scan_reaches ''a{1,}'' 1 \<and> (1::nat) < length ''a{1,}'' \<and> ''a{1,}'' ! 1 = CHR ''{''
   \<and> js_indexOf ''a{1,}'' (CHR ''}'') 1 = Some 4
   \<and> ''{1,}'' = js_slice ''a{1,}'' 1 (4 + 1)
   \<and> explain_step ''a{1,}'' 1 =
        (\<lparr>token = ''{1,}'', meaning = ''1 or more of the previous''\<rparr>, 4 + 1)
   \<and> \<lparr>token = ''{1,}'', meaning = ''1 or more of the previous''\<rparr> \<in> set (explainRegex ''a{1,}'')"
proof -
  have s0: "snd (explain_step ''a{1,}'' 0) = 1"
    by code_simp
  have h1: "scan_reaches ''a{1,}'' 1"
    using scan_reaches.step[OF scan_reaches.start, of "''a{1,}''"] s0 by simp
  have h2: "(1::nat) < length ''a{1,}''"
    by simp
  have h3: "''a{1,}'' ! 1 = CHR ''{''"
    by simp
  have h4: "js_indexOf ''a{1,}'' (CHR ''}'') 1 = Some 4"
    by code_simp
  have inner: "js_slice ''a{1,}'' (1 + 1) 4 = ''1,''"
    by code_simp
  show ?thesis
    using bounded_repetition_token[OF h1 h2 h3 h4] h1 h2 h3 h4
    unfolding inner Let_def by simp
qed

text \<open>
  The claim as stated fails: for the interior \<open>a,b,c\<close> the meaning names \<open>a\<close> and \<open>b\<close>
  only, and the interior \<open>1,2,\<close> ends with a comma but is reported as a range.
\<close>

theorem bounded_repetition_counterexample:
  "explainRegex ''{a,b,c}'' =
     [\<lparr>token = ''{a,b,c}'', meaning = ''Between a and b of the previous''\<rparr>]
   \<and> CHR ''c'' \<notin> set (meaning (hd (explainRegex ''{a,b,c}'')))
   \<and> explainRegex ''{1,2,}'' =
     [\<lparr>token = ''{1,2,}'', meaning = ''Between 1 and 2 of the previous''\<rparr>]"
  by code_simp

subsection \<open>Termination\<close>

lemma explain_step_literal:
  assumes "p ! i \<notin> set ''^$.*+?|[(){''" and "p ! i \<noteq> backslash"
  shows "explain_step p i =
           (\<lparr>token = [p ! i], meaning = ''Literal '' @ dquote @ [p ! i] @ dquote\<rparr>,
            i + 1)"
  using assms by (simp add: explain_step_def Let_def)

lemma explain_loop_parts:
  "scan_reaches p i \<Longrightarrow>
   set (explain_loop p i parts)
     \<subseteq> set parts \<union> {fst (explain_step p j) | j. scan_reaches p j \<and> j < length p}"
proof (induction "length p - i" arbitrary: i parts rule: less_induct)
  case less
  show ?case
  proof (cases "i < length p")
    case True
    define part where "part = fst (explain_step p i)"
    define i' where "i' = snd (explain_step p i)"
    have adv: "i < i'"
      unfolding i'_def using True by (rule explain_step_advances)
    then have m: "length p - i' < length p - i"
      using True by simp
    have r: "scan_reaches p i'"
      unfolding i'_def using less.prems True by (rule scan_reaches.step)
    have "set (explain_loop p i' (parts @ [part]))
            \<subseteq> set (parts @ [part]) \<union> {fst (explain_step p j) | j. scan_reaches p j \<and> j < length p}"
      using less.hyps[OF m r] .
    moreover have "part \<in> {fst (explain_step p j) | j. scan_reaches p j \<and> j < length p}"
      unfolding part_def using less.prems True by blast
    ultimately show ?thesis
      using explain_loop_step[OF True, of parts] by (auto simp: part_def i'_def)
  next
    case False
    then show ?thesis
      by (simp add: explain_loop_done)
  qed
qed

lemma explain_loop_literals:
  assumes "\<forall>c\<in>set p. c \<notin> set ''^$.*+?|[(){'' \<and> c \<noteq> backslash"
  shows "explain_loop p i parts =
           parts @ map (\<lambda>c. \<lparr>token = [c], meaning = ''Literal '' @ dquote @ [c] @ dquote\<rparr>)
                     (drop i p)"
proof (induction "length p - i" arbitrary: i parts rule: less_induct)
  case less
  show ?case
  proof (cases "i < length p")
    case True
    have "p ! i \<in> set p"
      using True by simp
    then have "p ! i \<notin> set ''^$.*+?|[(){''" and "p ! i \<noteq> backslash"
      using assms by blast+
    then have st: "explain_step p i =
        (\<lparr>token = [p ! i], meaning = ''Literal '' @ dquote @ [p ! i] @ dquote\<rparr>, i + 1)"
      by (rule explain_step_literal)
    have m: "length p - (i + 1) < length p - i"
      using True by simp
    have d: "drop i p = p ! i # drop (i + 1) p"
      using True by (simp add: Cons_nth_drop_Suc)
    show ?thesis
      using explain_loop_step[OF True, of parts] less[OF m] st d by simp
  next
    case False
    then show ?thesis
      by (simp add: explain_loop_done)
  qed
qed

text \<open>
  Claim C3. \<open>explainRegex\<close> is a total function of the pattern: the loop is defined by
  recursion on the distance of \<open>i\<close> to the end of the pattern, which every pass
  shortens, because every branch of the body moves \<open>i\<close> forward by at least one; so the
  loop makes at most one pass, and one part, for each character of the pattern. The
  parts returned are exactly those of the steps at the positions on which the scan
  stands, and there is at least one when the pattern is not empty. A character that opens
  no construct, at such a position, becomes a literal token of that one character in the
  list returned; and a pattern in which no character opens a construct becomes the list
  of the literal tokens of its characters.
\<close>

theorem explainRegex_total:
  "(\<forall>i<length p. i < snd (explain_step p i))
   \<and> length (explainRegex p) \<le> length p
   \<and> (p \<noteq> [] \<longrightarrow> explainRegex p \<noteq> [])
   \<and> set (explainRegex p) = {fst (explain_step p i) | i. scan_reaches p i \<and> i < length p}
   \<and> (\<forall>i<length p.
         scan_reaches p i \<and> p ! i \<notin> set ''^$.*+?|[(){'' \<and> p ! i \<noteq> backslash \<longrightarrow>
         explain_step p i =
           (\<lparr>token = [p ! i], meaning = ''Literal '' @ dquote @ [p ! i] @ dquote\<rparr>,
            i + 1)
         \<and> \<lparr>token = [p ! i], meaning = ''Literal '' @ dquote @ [p ! i] @ dquote\<rparr>
             \<in> set (explainRegex p))
   \<and> ((\<forall>c\<in>set p. c \<notin> set ''^$.*+?|[(){'' \<and> c \<noteq> backslash) \<longrightarrow>
        explainRegex p =
          map (\<lambda>c. \<lparr>token = [c], meaning = ''Literal '' @ dquote @ [c] @ dquote\<rparr>) p)"
proof (intro conjI allI impI)
  fix i assume "i < length p"
  then show "i < snd (explain_step p i)"
    by (rule explain_step_advances)
next
  show "length (explainRegex p) \<le> length p"
    using explain_loop_length[of p 0 "[]"] by (simp add: explainRegex_def)
next
  assume ne: "p \<noteq> []"
  have "concat (map token (explainRegex p)) = p"
    unfolding explainRegex_def by (rule explain_loop_concat) simp
  then show "explainRegex p \<noteq> []"
    using ne by auto
next
  show "set (explainRegex p) = {fst (explain_step p i) | i. scan_reaches p i \<and> i < length p}"
  proof
    show "set (explainRegex p) \<subseteq> {fst (explain_step p i) | i. scan_reaches p i \<and> i < length p}"
      using explain_loop_parts[OF scan_reaches.start, of p "[]"]
      by (simp add: explainRegex_def)
    show "{fst (explain_step p i) | i. scan_reaches p i \<and> i < length p} \<subseteq> set (explainRegex p)"
      using scan_reaches_emits by blast
  qed
next
  fix i
  assume "scan_reaches p i \<and> p ! i \<notin> set ''^$.*+?|[(){'' \<and> p ! i \<noteq> backslash"
  then show "explain_step p i =
           (\<lparr>token = [p ! i], meaning = ''Literal '' @ dquote @ [p ! i] @ dquote\<rparr>,
            i + 1)"
    by (simp add: explain_step_literal)
next
  fix i
  assume lt: "i < length p"
    and h: "scan_reaches p i \<and> p ! i \<notin> set ''^$.*+?|[(){'' \<and> p ! i \<noteq> backslash"
  then have "explain_step p i =
           (\<lparr>token = [p ! i], meaning = ''Literal '' @ dquote @ [p ! i] @ dquote\<rparr>,
            i + 1)"
    by (simp add: explain_step_literal)
  moreover have "fst (explain_step p i) \<in> set (explainRegex p)"
    using scan_reaches_emits[of p i] h lt by blast
  ultimately show "\<lparr>token = [p ! i], meaning = ''Literal '' @ dquote @ [p ! i] @ dquote\<rparr>
             \<in> set (explainRegex p)"
    by simp
next
  assume "\<forall>c\<in>set p. c \<notin> set ''^$.*+?|[(){'' \<and> c \<noteq> backslash"
  then show "explainRegex p =
          map (\<lambda>c. \<lparr>token = [c], meaning = ''Literal '' @ dquote @ [c] @ dquote\<rparr>) p"
    using explain_loop_literals[of p 0 "[]"] by (simp add: explainRegex_def)
qed

theorem explainRegex_total_witness:
  "(0::nat) < length ''a]''
   \<and> scan_reaches ''a]'' 0
   \<and> ''a]'' ! 0 \<notin> set ''^$.*+?|[(){'' \<and> ''a]'' ! 0 \<noteq> backslash
   \<and> ''a]'' ! 1 \<notin> set ''^$.*+?|[(){'' \<and> ''a]'' ! 1 \<noteq> backslash
   \<and> ''a]'' \<noteq> []
   \<and> 0 < snd (explain_step ''a]'' 0)
   \<and> length (explainRegex ''a]'') \<le> length ''a]''
   \<and> explain_step ''a]'' 0 =
         (\<lparr>token = ''a'', meaning = ''Literal '' @ dquote @ ''a'' @ dquote\<rparr>, 1)
   \<and> \<lparr>token = ''a'', meaning = ''Literal '' @ dquote @ ''a'' @ dquote\<rparr>
         \<in> set (explainRegex ''a]'')
   \<and> explainRegex ''a]'' =
         [\<lparr>token = ''a'', meaning = ''Literal '' @ dquote @ ''a'' @ dquote\<rparr>,
          \<lparr>token = '']'', meaning = ''Literal '' @ dquote @ '']'' @ dquote\<rparr>]"
proof -
  have a: "(0::nat) < length ''a]''"
    by simp
  have r: "scan_reaches ''a]'' 0"
    by (rule scan_reaches.start)
  have b: "''a]'' ! 0 \<notin> set ''^$.*+?|[(){'' \<and> ''a]'' ! 0 \<noteq> backslash"
    by (simp add: backslash_def)
  have c: "\<forall>c\<in>set ''a]''. c \<notin> set ''^$.*+?|[(){'' \<and> c \<noteq> backslash"
    by (simp add: backslash_def)
  have b1: "''a]'' ! 1 \<notin> set ''^$.*+?|[(){'' \<and> ''a]'' ! 1 \<noteq> backslash"
    by (simp add: backslash_def)
  show ?thesis
    using explainRegex_total[of "''a]''"] a r b b1 c by auto
qed

subsection \<open>A backslash at the end of the pattern\<close>

text \<open>
  Claim C10, as amended. When the scan reaches the last position of the pattern and a
  backslash stands there, the last part returned has the one-character token of the
  backslash and the meaning \<open>Literal ""\<close>, and the tokens still add up to the pattern.
\<close>

theorem trailing_backslash:
  assumes "p \<noteq> []" and "last p = backslash"
    and "scan_reaches p (length p - 1)"
  shows "explainRegex p \<noteq> []
     \<and> last (explainRegex p) = \<lparr>token = [backslash], meaning = ''Literal '' @ dquote @ dquote\<rparr>
     \<and> concat (map token (explainRegex p)) = p"
proof -
  let ?i = "length p - 1"
  have lt: "?i < length p"
    using assms(1) by simp
  have ch: "p ! ?i = backslash"
    using assms(1,2) by (simp add: last_conv_nth)
  have none: "js_at p (?i + 1) = None"
    using lt by (simp add: js_at_def)
  have esc: "explain_escape p ?i =
      (\<lparr>token = [backslash], meaning = ''Literal '' @ dquote @ dquote\<rparr>, ?i + 2)"
    using none by (simp add: explain_escape_def escapes_def)
  have st: "explain_step p ?i =
      (\<lparr>token = [backslash], meaning = ''Literal '' @ dquote @ dquote\<rparr>, ?i + 2)"
    using ch esc by (simp add: explain_step_def Let_def backslash_def)
  obtain parts where "explainRegex p = explain_loop p ?i parts"
    using scan_reaches_loop[OF assms(3)] by blast
  then have "explainRegex p =
      explain_loop p (?i + 2) (parts @ [\<lparr>token = [backslash], meaning = ''Literal '' @ dquote @ dquote\<rparr>])"
    using explain_loop_step[OF lt, of parts] st by simp
  then have r: "explainRegex p =
      parts @ [\<lparr>token = [backslash], meaning = ''Literal '' @ dquote @ dquote\<rparr>]"
    by (simp add: explain_loop_done)
  have c: "concat (map token (explainRegex p)) = p"
    unfolding explainRegex_def by (rule explain_loop_concat) simp
  show ?thesis
    using r c by simp
qed

theorem trailing_backslash_witness:
  "''ab'' @ [backslash] \<noteq> []
   \<and> last (''ab'' @ [backslash]) = backslash
   \<and> scan_reaches (''ab'' @ [backslash]) (length (''ab'' @ [backslash]) - 1)
   \<and> explainRegex (''ab'' @ [backslash]) \<noteq> []
   \<and> last (explainRegex (''ab'' @ [backslash])) =
         \<lparr>token = [backslash], meaning = ''Literal '' @ dquote @ dquote\<rparr>
   \<and> concat (map token (explainRegex (''ab'' @ [backslash]))) = ''ab'' @ [backslash]"
proof -
  let ?p = "''ab'' @ [backslash]"
  have s0: "snd (explain_step ?p 0) = 1"
    by code_simp
  have s1: "snd (explain_step ?p 1) = 2"
    by code_simp
  have r1: "scan_reaches ?p 1"
    using scan_reaches.step[OF scan_reaches.start, of ?p] s0 by simp
  have r2: "scan_reaches ?p 2"
    using scan_reaches.step[OF r1] s1 by simp
  have r: "scan_reaches ?p (length ?p - 1)"
    using r2 by (simp add: numeral_2_eq_2)
  have n: "?p \<noteq> []" and l: "last ?p = backslash"
    by simp_all
  show ?thesis
    using trailing_backslash[OF n l r] n l r by simp
qed

text \<open>
  The claim as stated fails when the scan never reaches the backslash: after an opening
  bracket the unterminated class takes it, and the only token is the class.
\<close>

theorem trailing_backslash_counterexample:
  "explainRegex (''['' @ [backslash]) =
     [\<lparr>token = ''['' @ [backslash], meaning = ''Any character in ['' @ [backslash]\<rparr>]
   \<and> last (explainRegex (''['' @ [backslash])) \<noteq>
         \<lparr>token = [backslash], meaning = ''Literal '' @ dquote @ dquote\<rparr>"
  by code_simp



section \<open>Properties of the argument parser\<close>





























section \<open>Properties of match processing\<close>

lemma collect_matches_unfold:
  "collect_matches regex subject k acc =
     (if length subject < k then Some acc
      else (case regex subject k of
              None \<Rightarrow> Some acc
            | Some m \<Rightarrow>
                collect_matches regex subject
                  (if length (match_text m) = 0 then match_index m + length (match_text m) + 1
                   else match_index m + length (match_text m))
                  (acc @ [match_record m])))"
  by (subst collect_matches.simps) (simp add: regex_exec_def split: option.splits)

lemma exec_cursor_next:
  assumes "exec_cursor regex subject k" and "k \<le> length subject" and "regex subject k = Some m"
  shows "exec_cursor regex subject
           (if length (match_text m) = 0 then match_index m + length (match_text m) + 1
            else match_index m + length (match_text m))"
proof -
  have "regex_exec regex subject k = (Some m, match_index m + length (match_text m))"
    using assms(2,3) by (simp add: regex_exec_def)
  from exec_cursor.later[OF assms(1) this] show ?thesis .
qed

lemma collect_matches_terminates:
  assumes "\<And>k m. exec_cursor regex subject k \<Longrightarrow> k \<le> length subject \<Longrightarrow>
             regex subject k = Some m \<Longrightarrow> k \<le> match_index m"
    and "exec_cursor regex subject k"
  shows "\<exists>ms. collect_matches regex subject k acc = Some ms
              \<and> length ms \<le> length acc + (length subject + 1 - k)"
  using assms(2)
proof (induction "length subject + 1 - k" arbitrary: k acc rule: less_induct)
  case less
  show ?case
  proof (cases "length subject < k")
    case True
    then show ?thesis
      by (subst collect_matches_unfold) simp
  next
    case inb: False
    show ?thesis
    proof (cases "regex subject k")
      case None
      then show ?thesis
        using inb by (subst collect_matches_unfold) simp
    next
      case (Some m)
      define k' where "k' = (if length (match_text m) = 0 then match_index m + length (match_text m) + 1
                   else match_index m + length (match_text m))"
      have kl: "k \<le> length subject"
        using inb by simp
      have "k \<le> match_index m"
        using assms(1)[OF less.prems kl Some] .
      then have adv: "k < k'"
        by (cases "match_text m") (simp_all add: k'_def)
      then have meas: "length subject + 1 - k' < length subject + 1 - k"
        using inb by simp
      have cur: "exec_cursor regex subject k'"
        unfolding k'_def using less.prems kl Some by (rule exec_cursor_next)
      from less.hyps[OF meas cur, of "acc @ [match_record m]"]
      obtain ms where ms: "collect_matches regex subject k' (acc @ [match_record m]) = Some ms"
        "length ms \<le> length (acc @ [match_record m]) + (length subject + 1 - k')"
        by blast
      have "length ms \<le> length acc + (length subject + 1 - k)"
        using ms(2) adv inb by simp
      moreover have "collect_matches regex subject k acc = Some ms"
        using inb Some ms(1) by (subst collect_matches_unfold) (simp add: k'_def)
      ultimately show ?thesis
        by blast
    qed
  qed
qed


lemma collect_matches_invariant:
  assumes run: "collect_matches regex subject k acc = Some ms"
    and init: "I k acc"
    and step: "\<And>k acc m. I k acc \<Longrightarrow> k \<le> length subject \<Longrightarrow> regex subject k = Some m \<Longrightarrow>
                 I (if length (match_text m) = 0 then match_index m + length (match_text m) + 1
                    else match_index m + length (match_text m))
                   (acc @ [match_record m])"
  shows "\<exists>k'. I k' ms"
proof -
  have "regex = regex \<and> subject = subject \<and> I k acc \<longrightarrow> (\<exists>k'. I k' ms)"
  proof (rule collect_matches.raw_induct
      [where P = "\<lambda>rx s k acc ms. rx = regex \<and> s = subject \<and> I k acc \<longrightarrow> (\<exists>k'. I k' ms)",
       OF _ run])
    fix cm :: "RegExp \<Rightarrow> string \<Rightarrow> nat \<Rightarrow> MatchRecord list \<Rightarrow> MatchRecord list option"
    fix rx s k acc ms
    assume IH: "\<And>rx s k acc ms. cm rx s k acc = Some ms \<Longrightarrow>
          rx = regex \<and> s = subject \<and> I k acc \<longrightarrow> (\<exists>k'. I k' ms)"
    assume eq: "(case regex_exec rx s k of
                   (None, x) \<Rightarrow> Some acc
                 | (Some m, x) \<Rightarrow>
                     cm rx s (if length (match_text m) = 0 then x + 1 else x)
                       (acc @ [match_record m])) = Some ms"
    show "rx = regex \<and> s = subject \<and> I k acc \<longrightarrow> (\<exists>k'. I k' ms)"
    proof
      assume h: "rx = regex \<and> s = subject \<and> I k acc"
      obtain mo li where ex: "regex_exec rx s k = (mo, li)"
        by (cases "regex_exec rx s k")
      show "\<exists>k'. I k' ms"
      proof (cases mo)
        case None
        then have "ms = acc"
          using eq ex by simp
        then show ?thesis
          using h by blast
      next
        case (Some m)
        then have m: "regex subject k = Some m" and li: "li = match_index m + length (match_text m)"
          and kl: "k \<le> length subject"
          using ex h by (simp_all add: regex_exec_def split: if_splits option.splits)
        have "I k acc"
          using h by simp
        then have "I (if length (match_text m) = 0 then li + 1 else li) (acc @ [match_record m])"
          unfolding li by (rule step[OF _ kl m])
        moreover have "cm rx s (if length (match_text m) = 0 then li + 1 else li)
                       (acc @ [match_record m]) = Some ms"
          using eq ex Some by simp
        ultimately show ?thesis
          using IH h by blast
      qed
    qed
  qed
  then show ?thesis
    using init by blast
qed

lemma collect_matches_from_host:
  assumes "collect_matches regex subject k acc = Some ms"
    and "\<forall>r\<in>set acc. \<exists>j m. regex subject j = Some m \<and> r = match_record m"
  shows "\<forall>r\<in>set ms. \<exists>j m. regex subject j = Some m \<and> r = match_record m"
proof -
  have "\<exists>k'::nat. \<forall>r\<in>set ms. \<exists>j m. regex subject j = Some m \<and> r = match_record m"
  proof (rule collect_matches_invariant
          [where I = "\<lambda>k acc. \<forall>r\<in>set acc. \<exists>j m. regex subject j = Some m \<and> r = match_record m",
           OF assms])
    fix k :: nat and acc m
    assume inv: "\<forall>r\<in>set acc. \<exists>j m. regex subject j = Some m \<and> r = match_record m"
      and m: "regex subject k = Some m"
    have "\<exists>j m'. regex subject j = Some m' \<and> match_record m = match_record m'"
      using m by blast
    then show "\<forall>r\<in>set (acc @ [match_record m]).
                 \<exists>j m. regex subject j = Some m \<and> r = match_record m"
      using inv by simp
  qed
  then show ?thesis
    by blast
qed









lemma testString_Inr:
  assumes "testString h pat fl s = Some (Inr r)" and "RegExp_new h pat fl = Inr regex"
  shows "input r = s \<and> highlighted r = build_highlighted s (matches r)
     \<and> (if js_includes fl (CHR ''g'') then collect_matches regex s 0 [] = Some (matches r)
         else matches r = (case regex s 0 of None \<Rightarrow> [] | Some m \<Rightarrow> [match_record m]))"
  using assms by (auto simp: testString_def split: option.splits if_splits)






lemma unicode_loop_diverges:
  "collect_matches (empty_regex_u (\<lambda>k. k = 1)) [hi, lo] k acc = Some ms \<Longrightarrow> k \<le> 1 \<Longrightarrow> False"
proof -
  assume run: "collect_matches (empty_regex_u (\<lambda>k. k = 1)) [hi, lo] k acc = Some ms" and k: "k \<le> 1"
  have "empty_regex_u (\<lambda>k. k = 1) = empty_regex_u (\<lambda>k. k = 1) \<and> [hi, lo] = [hi, lo] \<and> k \<le> 1
        \<longrightarrow> False"
  proof (rule collect_matches.raw_induct
      [where P = "\<lambda>rx s k acc ms. rx = empty_regex_u (\<lambda>k. k = 1) \<and> s = [hi, lo] \<and> k \<le> 1 \<longrightarrow> False",
       OF _ run])
    fix cm :: "RegExp \<Rightarrow> string \<Rightarrow> nat \<Rightarrow> MatchRecord list \<Rightarrow> MatchRecord list option"
    fix rx s k acc ms
    assume IH: "\<And>rx s k acc ms. cm rx s k acc = Some ms \<Longrightarrow>
          rx = empty_regex_u (\<lambda>k. k = 1) \<and> s = [hi, lo] \<and> k \<le> 1 \<longrightarrow> False"
    assume eq: "(case regex_exec rx s k of
                   (None, x) \<Rightarrow> Some acc
                 | (Some m, x) \<Rightarrow>
                     cm rx s (if length (match_text m) = 0 then x + 1 else x)
                       (acc @ [match_record m])) = Some ms"
    show "rx = empty_regex_u (\<lambda>k. k = 1) \<and> s = [hi, lo] \<and> k \<le> 1 \<longrightarrow> False"
    proof
      assume h: "rx = empty_regex_u (\<lambda>k. k = 1) \<and> s = [hi, lo] \<and> k \<le> 1"
      let ?m = "\<lparr>match_text = [], match_index = 0, match_captures = [], match_groups = None\<rparr>"
      have "regex_exec rx s k = (Some ?m, 0)"
        using h by (auto simp: regex_exec_def empty_regex_u_def)
      then have "cm rx s 1 (acc @ [match_record ?m]) = Some ms"
        using eq by simp
      then show False
        using IH h by blast
    qed
  qed
  then show False
    using k by blast
qed



subsection \<open>Removing the markers\<close>















text \<open>
  Claim C5, as amended. Every record of a result of \<open>testString\<close> is the image of a raw
  match of the host: \<open>full\<close> its text, \<open>index\<close> its start, \<open>groups\<close> its positional
  captures with the absent ones kept absent, \<open>namedGroups\<close> a copy of its named groups,
  empty when the host reports none; a named group that did not take part keeps its
  absent value. Without the global flag there is one call of \<open>exec\<close> and at most one
  record.
\<close>

theorem testString_match_records:
  assumes "testString h pat fl s = Some (Inr r)" and "RegExp_new h pat fl = Inr regex"
  shows "(\<forall>mr\<in>set (matches r).
            \<exists>k m. regex s k = Some m
                \<and> full mr = match_text m \<and> index mr = match_index m
                \<and> groups mr = match_captures m
                \<and> namedGroups mr = (case match_groups m of None \<Rightarrow> [] | Some g \<Rightarrow> g))
     \<and> (\<not> js_includes fl (CHR ''g'') \<longrightarrow>
           matches r = (case regex s 0 of None \<Rightarrow> [] | Some m \<Rightarrow> [match_record m])
           \<and> length (matches r) \<le> 1)"
proof -
  have a: "\<forall>mr\<in>set (matches r). \<exists>k m. regex s k = Some m \<and> mr = match_record m"
  proof (cases "js_includes fl (CHR ''g'')")
    case True
    then have "collect_matches regex s 0 [] = Some (matches r)"
      using testString_Inr[OF assms] by simp
    then show ?thesis
      by (rule collect_matches_from_host) simp
  next
    case False
    then have "matches r = (case regex s 0 of None \<Rightarrow> [] | Some m \<Rightarrow> [match_record m])"
      using testString_Inr[OF assms] by simp
    then show ?thesis
      by (cases "regex s 0") auto
  qed
  have b: "matches r = (case regex s 0 of None \<Rightarrow> [] | Some m \<Rightarrow> [match_record m])
           \<and> length (matches r) \<le> 1" if "\<not> js_includes fl (CHR ''g'')"
    using testString_Inr[OF assms] that by (cases "regex s 0") simp_all
  show ?thesis
  proof (intro conjI ballI impI)
    fix mr assume "mr \<in> set (matches r)"
    then obtain k m where "regex s k = Some m" "mr = match_record m"
      using a by blast
    then show "\<exists>k m. regex s k = Some m
                \<and> full mr = match_text m \<and> index mr = match_index m
                \<and> groups mr = match_captures m
                \<and> namedGroups mr = (case match_groups m of None \<Rightarrow> [] | Some g \<Rightarrow> g)"
      by (auto simp: match_record_def)
  next
    assume "\<not> js_includes fl (CHR ''g'')"
    then show "matches r = (case regex s 0 of None \<Rightarrow> [] | Some m \<Rightarrow> [match_record m])"
      using b by blast
  next
    assume "\<not> js_includes fl (CHR ''g'')"
    then show "length (matches r) \<le> 1"
      using b by blast
  qed
qed

lemma testString_optional_capture:
  "testString (host_with named_alt_regex no_json) ''(?<a>x)|(?<b>y)'' ''i'' ''zy''
   = Some (Inr \<lparr>input = ''zy'',
                matches = [\<lparr>full = ''y'', index = 1, groups = [None, Some ''y''],
                            namedGroups = [(''a'', None), (''b'', Some ''y'')]\<rparr>],
                highlighted = ''z'' @ c_bgGreen @ c_bold @ ''y'' @ c_reset\<rparr>)"
  by (simp add: testString_def host_with_def js_includes_def
        named_alt_regex_def match_record_def build_highlighted_def
        MATCH_COLORS_def js_slice_def js_slice_from_def Let_def upt_rec)

theorem testString_match_records_witness:
  "testString (host_with named_alt_regex no_json) ''(?<a>x)|(?<b>y)'' ''i'' ''zy''
     = Some (Inr \<lparr>input = ''zy'',
                matches = [\<lparr>full = ''y'', index = 1, groups = [None, Some ''y''],
                            namedGroups = [(''a'', None), (''b'', Some ''y'')]\<rparr>],
                highlighted = ''z'' @ c_bgGreen @ c_bold @ ''y'' @ c_reset\<rparr>)
   \<and> RegExp_new (host_with named_alt_regex no_json) ''(?<a>x)|(?<b>y)'' ''i'' = Inr named_alt_regex
   \<and> \<not> js_includes ''i'' (CHR ''g'')
   \<and> named_alt_regex ''zy'' 0
       = Some \<lparr>match_text = ''y'', match_index = 1, match_captures = [None, Some ''y''],
                match_groups = Some [(''a'', None), (''b'', Some ''y'')]\<rparr>
   \<and> [\<lparr>full = ''y'', index = 1, groups = [None, Some ''y''],
         namedGroups = [(''a'', None), (''b'', Some ''y'')]\<rparr>]
       = (case named_alt_regex ''zy'' 0 of None \<Rightarrow> [] | Some m \<Rightarrow> [match_record m])
   \<and> length [\<lparr>full = ''y'', index = 1, groups = [None, Some ''y''],
                namedGroups = [(''a'', None), (''b'', Some ''y'')]\<rparr>] \<le> 1"
proof -
  have h2: "RegExp_new (host_with named_alt_regex no_json) ''(?<a>x)|(?<b>y)'' ''i''
            = Inr named_alt_regex"
    by (simp add: host_with_def)
  have h3: "\<not> js_includes ''i'' (CHR ''g'')"
    by (simp add: js_includes_def)
  have m: "named_alt_regex ''zy'' 0
       = Some \<lparr>match_text = ''y'', match_index = 1, match_captures = [None, Some ''y''],
                match_groups = Some [(''a'', None), (''b'', Some ''y'')]\<rparr>"
    by (simp add: named_alt_regex_def upt_rec Let_def)
  show ?thesis
    using testString_match_records[OF testString_optional_capture h2] testString_optional_capture
      h2 h3 m
    by simp
qed

text \<open>
  Not every value of \<open>namedGroups\<close> is a string: for \<open>(?<a>x)|(?<b>y)\<close> on \<open>y\<close> the
  group \<open>a\<close> did not take part, and the copy keeps its absent value.
\<close>

theorem named_group_value_counterexample:
  "testString (host_with named_alt_regex no_json) ''(?<a>x)|(?<b>y)'' ''g'' ''y''
   = Some (Inr \<lparr>input = ''y'',
                matches = [\<lparr>full = ''y'', index = 0, groups = [None, Some ''y''],
                            namedGroups = [(''a'', None), (''b'', Some ''y'')]\<rparr>],
                highlighted = c_bgGreen @ c_bold @ ''y'' @ c_reset\<rparr>)"
  by (simp add: testString_def host_with_def js_includes_def collect_matches_unfold
        named_alt_regex_def match_record_def build_highlighted_def
        MATCH_COLORS_def js_slice_def js_slice_from_def Let_def upt_rec)

lemma testString_returns:
  assumes "RegExp_new h pat fl = Inr regex" and "exec_progress fl regex s"
  shows "\<exists>r. testString h pat fl s = Some (Inr r) \<and> length (matches r) \<le> length s + 1"
proof (cases "js_includes fl (CHR ''g'')")
  case True
  have p: "k \<le> match_index m"
    if "exec_cursor regex s k" "k \<le> length s" "regex s k = Some m" for k m
  proof -
    have "run_cursor fl regex s k"
      using that(1) True by (simp add: run_cursor_def)
    then show ?thesis
      using assms(2) that(2,3) unfolding exec_progress_def by blast
  qed
  have "\<exists>ms. collect_matches regex s 0 [] = Some ms
              \<and> length ms \<le> length ([] :: MatchRecord list) + (length s + 1 - 0)"
    using p exec_cursor.first by (rule collect_matches_terminates)
  then obtain ms where "collect_matches regex s 0 [] = Some ms" "length ms \<le> length s + 1"
    by auto
  then show ?thesis
    using True assms(1) by (simp add: testString_def)
next
  case False
  then show ?thesis
    using assms(1) by (cases "regex s 0") (simp_all add: testString_def)
qed

lemma testString_terminates:
  assumes "RegExp_new h pat fl = Inr regex"
    and "\<And>k m. regex s k = Some m \<Longrightarrow> k \<le> match_index m"
  shows "\<exists>r. testString h pat fl s = Some (Inr r) \<and> length (matches r) \<le> length s + 1"
proof -
  have "exec_progress fl regex s"
    unfolding exec_progress_def using assms(2) by blast
  with assms(1) show ?thesis
    by (rule testString_returns)
qed

text \<open>
  Claim C4. The loop ends with at most \<open>L + 1\<close> matches on every host whose \<open>exec\<close>
  never reports a match before the cursor (\<open>testString_terminates\<close>). With the \<open>u\<close> flag
  the host does: the step by one code unit after an empty match can leave the cursor
  inside a surrogate pair, the next search starts at the pair's first unit and finds the
  same empty match again. For a subject of one such pair the run does not end.
\<close>

theorem unicode_empty_match_diverges:
  "testString (host_with (empty_regex_u (\<lambda>k. k = 1)) no_json) ''x*'' ''gu'' [hi, lo] = None"
proof -
  have "collect_matches (empty_regex_u (\<lambda>k. k = 1)) [hi, lo] 0 [] = None"
  proof (cases "collect_matches (empty_regex_u (\<lambda>k. k = 1)) [hi, lo] 0 []")
    case None
    then show ?thesis .
  next
    case (Some ms)
    then have False
      by (rule unicode_loop_diverges) simp
    then show ?thesis ..
  qed
  then show ?thesis
    by (simp add: testString_def host_with_def js_includes_def)
qed


section \<open>Properties of the driver\<close>



















lemma parseArgs_json: "parseArgs [''a'', ''a'', ''--json''] =
    \<lparr>help_requested = False, json = True, pattern = ''a'', strings = [''a''], flags = ''g'',
     bulk = None, explain = False\<rparr>"
  by code_simp


lemma testString_one_match:
  "testString (host_with (literal_regex (CHR ''a'')) stringify) ''a'' ''g'' ''a''
   = Some (Inr \<lparr>input = ''a'',
                matches = [\<lparr>full = ''a'', index = 0, groups = [], namedGroups = []\<rparr>],
                highlighted = c_bgGreen @ c_bold @ ''a'' @ c_reset\<rparr>)"
  by (simp add: testString_def host_with_def js_includes_def collect_matches_unfold
        literal_regex_def js_indexOf_def match_record_def build_highlighted_def
        MATCH_COLORS_def js_slice_def js_slice_from_def Let_def)


lemma JSON_stringify_host_with: "JSON_stringify (host_with regex stringify) = stringify"
  by (simp add: host_with_def)


text \<open>
  Claim C7. The document handed to \<open>JSON.stringify\<close> is the array the claim describes,
  with indentation \<open>2\<close> and without the highlighted string. But it is not all that a
  run with \<open>--json\<close> prints: the two header lines, colour markers included, come first,
  unlike the rendering of the results and the summary, which \<open>--json\<close> turns off. The run
  of \<open>regex-test a a --json\<close>:
\<close>

theorem json_mode_prints_header:
  "main (host_with (literal_regex (CHR ''a'')) stringify) [''a'', ''a'', ''--json''] =
     Some \<lparr>stdout =
             [newline @ c_bold @ c_cyan @ ''  regex-test'' @ c_reset,
              ''  '' @ c_dim @ ''Pattern:'' @ c_reset @ '' '' @ c_yellow @ ''/a/g'' @ c_reset,
              stringify
                (JArray [JObject [(''input'', JString ''a''),
                                  (''matchCount'', JNumber 1),
                                  (''matches'',
                                     JArray [JObject [(''full'', JString ''a''),
                                                      (''index'', JNumber 0),
                                                      (''groups'', JArray []),
                                                      (''namedGroups'', JObject [])]])]])
                2,
              []],
           stderr = [], exit_code = 0\<rparr>"
  by (simp add: main_def parseArgs_json js_truthy_def load_strings_def run_strings_def
        testString_one_match jsonOut_def json_match_def JSON_stringify_host_with Let_def)



end
